theory Spec2Isabelle
  imports Main "HOL-Library.Word" "HOL-Library.Sublist"
begin

section \<open>CTNR: compile-time type name reflection\<close>

text \<open>
  A shallow embedding of \<^verbatim>\<open>CTNR.hpp\<close>. Every function of the header is a
  \<^verbatim>\<open>constexpr\<close> function or the initialiser of a \<^verbatim>\<open>constexpr\<close> object, so the
  model is a pure one. What it makes explicit:
  \<^item> \<^verbatim>\<open>unsigned\<close> is a 32-bit word: \<open>+\<close> and \<open>-\<close> wrap around, and \<^verbatim>\<open>-1\<close>
    converted to \<^verbatim>\<open>unsigned\<close> is \<open>2 ^ 32 - 1\<close>;
  \<^item> a \<^verbatim>\<open>const char*\<close> is the part of its array that starts at the pointer:
    \<^verbatim>\<open>*p\<close> is the head, \<^verbatim>\<open>p + 1\<close> the tail, and the empty list is the pointer one past
    the end of the array, which may be formed but not read (the header never moves a
    pointer backwards);
  \<^item> constant evaluation fails (the program is ill-formed and no binary is produced) when
    a read or a pointer leaves its array, or when an aggregate gets more initialisers
    than it has elements: the result type is \<open>error + 'a\<close>, with \<open>Inl\<close> for the failure.
\<close>

type_synonym u32 = "32 word"

datatype error = OutOfBounds | IllFormed

abbreviation NUL :: char where
  "NUL \<equiv> CHR 0x00"

text \<open>The array object of the string literal \<^verbatim>\<open>"..."\<close>: its characters and the terminator.\<close>

definition literal :: "string \<Rightarrow> string" where
  "literal body = body @ [NUL]"

text \<open>
  The characters of a C string up to its terminator: what a content comparison of two
  names reads.
\<close>

definition c_str :: "string \<Rightarrow> string" where
  "c_str p = takeWhile (\<lambda>c. c \<noteq> NUL) p"

text \<open>\<^verbatim>\<open>p + n\<close>: the result may be any position of the array or the one past its end.\<close>

definition ptr_add :: "string \<Rightarrow> nat \<Rightarrow> error + string" where
  "ptr_add p n = (if n \<le> length p then Inr (drop n p) else Inl OutOfBounds)"

text \<open>\<^verbatim>\<open>p[i]\<close>: a read inside the array.\<close>

definition index :: "string \<Rightarrow> nat \<Rightarrow> error + char" where
  "index p i = (if i < length p then Inr (p ! i) else Inl OutOfBounds)"

text \<open>Sequencing of two constant evaluations: the first failure is the result.\<close>

definition bind :: "error + 'a \<Rightarrow> ('a \<Rightarrow> error + 'b) \<Rightarrow> error + 'b" where
  "bind m f = (case m of Inl e \<Rightarrow> Inl e | Inr x \<Rightarrow> f x)"

subsection \<open>The counting and the scanning procedure\<close>

text \<open>
  \<^verbatim>\<open>
  inline constexpr unsigned CTL(const char* inLiteral, unsigned tail = 0)
  {
    return *inLiteral ? CTL(inLiteral + 1, tail + 1) : tail;
  }
  \<close>
\<close>

fun CTL :: "string \<Rightarrow> u32 \<Rightarrow> error + u32" where
  "CTL [] tail = Inl OutOfBounds"
| "CTL (c # cs) tail = (if c \<noteq> NUL then CTL cs (tail + 1) else Inr tail)"

text \<open>
  \<^verbatim>\<open>
  inline constexpr unsigned CTFV(const char* inLiteral, unsigned tail = 0, unsigned match = 0)
  {
    return 4 == match ? tail - 4
      : (*inLiteral ? CTFV(inLiteral + 1, tail + 1, "void"[match] == *inLiteral ? match + 1 : 0)
                    : -1);
  }
  \<close>
  The test \<^verbatim>\<open>4 == match\<close> comes before the read of \<^verbatim>\<open>*inLiteral\<close>, so a match that ends
  with the last character of the array is reported without a read past the end.
\<close>

fun CTFV :: "string \<Rightarrow> u32 \<Rightarrow> u32 \<Rightarrow> error + u32" where
  "CTFV [] tail match = (if 4 = match then Inr (tail - 4) else Inl OutOfBounds)"
| "CTFV (c # cs) tail match =
     (if 4 = match then Inr (tail - 4)
      else if c \<noteq> NUL then
        (case index (literal ''void'') (unat match) of
           Inl e \<Rightarrow> Inl e
         | Inr v \<Rightarrow> CTFV cs (tail + 1) (if v = c then match + 1 else 0))
      else Inr (- 1))"

subsection \<open>Calibration\<close>

text \<open>
  \<^verbatim>\<open>
  constexpr unsigned s_OffsetStart{ CTFV(FFN<void>()) };
  constexpr unsigned s_OffsetREnd{ CTL(FFN<void>() + s_OffsetStart + 4) };
  \<close>
  \<^verbatim>\<open>FFN<T>()\<close> returns the compiler's \<^verbatim>\<open>__PRETTY_FUNCTION__\<close> or \<^verbatim>\<open>__FUNCSIG__\<close>; the
  array it points to is a parameter of the model (\<open>sigv\<close> for \<^verbatim>\<open>FFN<void>()\<close>).
\<close>

definition s_OffsetStart :: "string \<Rightarrow> error + u32" where
  "s_OffsetStart sigv = CTFV sigv 0 0"

definition s_OffsetREnd :: "string \<Rightarrow> error + u32" where
  "s_OffsetREnd sigv =
     bind (s_OffsetStart sigv) (\<lambda>start.
     bind (ptr_add sigv (unat start)) (\<lambda>p.
     bind (ptr_add p 4) (\<lambda>q. CTL q 0)))"

subsection \<open>The materializer\<close>

text \<open>
  \<^verbatim>\<open>template <unsigned N> struct CSW { const char val[N]; };\<close>
  An aggregate of \<open>N\<close> characters built from a list of initialisers: the elements without
  an initialiser are zero, more initialisers than elements are ill-formed, and so is an
  array of no elements.
\<close>

definition CSW :: "u32 \<Rightarrow> string \<Rightarrow> error + string" where
  "CSW N inits =
     (if N \<noteq> 0 \<and> length inits \<le> unat N
      then Inr (inits @ replicate (unat N - length inits) NUL)
      else Inl IllFormed)"

text \<open>The pack expansion \<^verbatim>\<open>inLiteral[Is]...\<close>, read from left to right.\<close>

fun gather :: "string \<Rightarrow> u32 list \<Rightarrow> error + string" where
  "gather p [] = Inr []"
| "gather p (i # is) =
     bind (index p (unat i)) (\<lambda>c. bind (gather p is) (\<lambda>cs. Inr (c # cs)))"

text \<open>
  \<^verbatim>\<open>
  template <unsigned N, unsigned... Is>
  inline constexpr CSW<N + 1> ISeq<N, 0, Is...>::STN(const char* inLiteral)
  {
    return { inLiteral[Is]..., '\0' };
  }
  \<close>
\<close>

definition STN_floor :: "u32 \<Rightarrow> u32 list \<Rightarrow> string \<Rightarrow> error + string" where
  "STN_floor N Is inLiteral =
     bind (gather inLiteral Is) (\<lambda>cs. CSW (N + 1) (cs @ [NUL]))"

text \<open>
  \<^verbatim>\<open>
  template <unsigned N, unsigned Gen, unsigned... Is>
  inline constexpr CSW<N + 1> ISeq<N, Gen, Is...>::STN(const char* inLiteral)
  {
    return ISeq<N, Gen - 1, Gen - 1, Is...>::STN(inLiteral);
  }
  \<close>
  The partial specialisation for \<open>Gen = 0\<close> is the more specialised one and is chosen
  when it applies.
\<close>

function STN :: "u32 \<Rightarrow> u32 \<Rightarrow> u32 list \<Rightarrow> string \<Rightarrow> error + string" where
  "STN N Gen Is inLiteral =
     (if Gen = 0 then STN_floor N Is inLiteral
      else STN N (Gen - 1) ((Gen - 1) # Is) inLiteral)"
  by pat_completeness auto
termination
  by (relation "measure (\<lambda>(N, Gen, Is, inLiteral). unat Gen)")
     (auto simp: unat_minus_one unat_gt_0)

text \<open>
  The parameter pack of the specialisation \<^verbatim>\<open>ISeq<N, 0, Is...>\<close> that the chain of
  instantiations starting at \<^verbatim>\<open>ISeq<N, Gen, Is...>\<close> ends in.
\<close>

function ISeq :: "u32 \<Rightarrow> u32 list \<Rightarrow> u32 list" where
  "ISeq Gen Is = (if Gen = 0 then Is else ISeq (Gen - 1) ((Gen - 1) # Is))"
  by pat_completeness auto
termination
  by (relation "measure (\<lambda>(Gen, Is). unat Gen)")
     (auto simp: unat_minus_one unat_gt_0)

subsection \<open>The name record and the entry point\<close>

text \<open>
  \<^verbatim>\<open>
  template <typename T>
  struct TNH
  {
    static constexpr const unsigned s_Len{ CTL(FFN<T>() + s_OffsetStart) - s_OffsetREnd };
    static constexpr CSW<s_Len + 1> s_Str{ ISeq<s_Len>::STN(FFN<T>() + s_OffsetStart) };
  };
  \<close>
  \<open>sigT\<close> is the array of \<^verbatim>\<open>FFN<T>()\<close>. The default argument of \<open>Gen\<close> is \<open>N\<close> and the
  pack starts empty.
\<close>

definition s_Len :: "string \<Rightarrow> string \<Rightarrow> error + u32" where
  "s_Len sigv sigT =
     bind (s_OffsetStart sigv) (\<lambda>start.
     bind (s_OffsetREnd sigv) (\<lambda>rend.
     bind (ptr_add sigT (unat start)) (\<lambda>p.
     bind (CTL p 0) (\<lambda>n. Inr (n - rend)))))"

definition s_Str :: "string \<Rightarrow> string \<Rightarrow> error + string" where
  "s_Str sigv sigT =
     bind (s_Len sigv sigT) (\<lambda>len.
     bind (s_OffsetStart sigv) (\<lambda>start.
     bind (ptr_add sigT (unat start)) (\<lambda>p. STN len len [] p)))"

text \<open>
  \<^verbatim>\<open>
  template <typename T>
  constexpr auto GetName() -> decltype(CTNR::Impl::TNH<T>::s_Str.val)&
  {
    return CTNR::Impl::TNH<T>::s_Str.val;
  }
  \<close>
\<close>

definition GetName :: "string \<Rightarrow> string \<Rightarrow> error + string" where
  "GetName sigv sigT = s_Str sigv sigT"

subsection \<open>The signature provider\<close>

text \<open>
  Modelled from the spec: the text that \<^verbatim>\<open>FFN<T>()\<close> returns is the compiler's
  \<^verbatim>\<open>__PRETTY_FUNCTION__\<close> or \<^verbatim>\<open>__FUNCSIG__\<close>, which the header does not contain. By
  section 4.1 of the specification the text embeds the spelling of \<open>T\<close> as a contiguous
  run between a prefix and a suffix that are the same for every \<open>T\<close>; the prefix and the
  suffix of the compiler in use are parameters.
\<close>

definition FFN :: "string \<Rightarrow> string \<Rightarrow> string \<Rightarrow> string" where
  "FFN pre suf spelling = literal (pre @ spelling @ suf)"

subsection \<open>The counter of the scan\<close>

text \<open>
  The values that the parameter \<^verbatim>\<open>match\<close> of \<open>CTFV\<close> takes while the scan consumes the
  characters \<open>s\<close>, the first being the value it starts with and each next one the
  argument \<^verbatim>\<open>"void"[match] == *inLiteral ? match + 1 : 0\<close> of the recursive call. The
  matcher completes a match when the value 4 occurs.
\<close>

fun matches :: "string \<Rightarrow> u32 \<Rightarrow> u32 list" where
  "matches [] match = [match]"
| "matches (c # cs) match =
     match # (case index (literal ''void'') (unat match) of
                Inl e \<Rightarrow> []
              | Inr v \<Rightarrow> matches cs (if v = c then match + 1 else 0))"

text \<open>
  What the scan knows of the characters \<open>xs\<close> it has consumed when its counter is \<open>m\<close>:
  they end with the first \<open>m\<close> characters of the literal.
\<close>

definition consumed :: "string \<Rightarrow> u32 \<Rightarrow> bool" where
  "consumed xs m \<longleftrightarrow>
     m = 0 \<or> m = 1 \<and> (\<exists>ys. xs = ys @ ''v'') \<or> m = 2 \<and> (\<exists>ys. xs = ys @ ''vo'')
     \<or> m = 3 \<and> (\<exists>ys. xs = ys @ ''voi'') \<or> m = 4 \<and> (\<exists>ys. xs = ys @ ''void'')"

section \<open>Properties\<close>

declare STN.simps [simp del] ISeq.simps [simp del]

subsection \<open>Strings and constant evaluation\<close>

lemma bind_Inr [simp]: "bind (Inr x) f = f x"
  by (simp add: bind_def)

lemma bind_Inl [simp]: "bind (Inl e) f = Inl e"
  by (simp add: bind_def)

lemma c_str_split:
  assumes "NUL \<in> set p"
  shows "\<exists>rest. p = c_str p @ NUL # rest"
proof -
  have "dropWhile (\<lambda>c. c \<noteq> NUL) p \<noteq> []"
    using assms by simp
  then obtain d rest where d: "dropWhile (\<lambda>c. c \<noteq> NUL) p = d # rest"
    by (cases "dropWhile (\<lambda>c. c \<noteq> NUL) p") auto
  then have "d = NUL"
    using hd_dropWhile [of "\<lambda>c. c \<noteq> NUL" p] by auto
  with d have "p = takeWhile (\<lambda>c. c \<noteq> NUL) p @ NUL # rest"
    using takeWhile_dropWhile_id [of "\<lambda>c. c \<noteq> NUL" p] by simp
  then show ?thesis by (auto simp: c_str_def)
qed

lemma c_str_no_NUL: "NUL \<notin> set (c_str p)"
  unfolding c_str_def by (auto dest: set_takeWhileD)

lemma c_str_append: "NUL \<notin> set xs \<Longrightarrow> c_str (xs @ q) = xs @ c_str q"
  by (induction xs) (auto simp: c_str_def)

lemma c_str_Cons: "c \<noteq> NUL \<Longrightarrow> c_str (c # q) = c # c_str q"
  by (simp add: c_str_def)

lemma c_str_literal: "NUL \<notin> set body \<Longrightarrow> c_str (literal body) = body"
  by (simp add: c_str_append literal_def) (simp add: c_str_def)

lemma CTL_append: "NUL \<notin> set xs \<Longrightarrow> CTL (xs @ q) tail = CTL q (tail + of_nat (length xs))"
  by (induction xs arbitrary: tail) (auto simp: add.assoc add.commute)

lemma CTL_c_str:
  assumes "NUL \<in> set p"
  shows "CTL p tail = Inr (tail + of_nat (length (c_str p)))"
proof -
  obtain rest where p: "p = c_str p @ NUL # rest"
    using c_str_split [OF assms] ..
  have "CTL (c_str p @ NUL # rest) tail = Inr (tail + of_nat (length (c_str p)))"
    by (simp add: CTL_append c_str_no_NUL)
  with p show ?thesis by simp
qed

lemma CTL_no_NUL: "NUL \<notin> set p \<Longrightarrow> CTL p tail = Inl OutOfBounds"
  by (induction p arbitrary: tail) auto

lemma length_c_str_less: "NUL \<in> set p \<Longrightarrow> length (c_str p) < length p"
  using c_str_split [of p] by (metis length_append length_Cons less_add_Suc1 add_Suc_right)

lemma CTL_Inr_NUL: "CTL p tail = Inr n \<Longrightarrow> NUL \<in> set p"
  using CTL_no_NUL [of p tail] by auto

lemma CTL_literal: "NUL \<notin> set body \<Longrightarrow> CTL (literal body) tail = Inr (tail + of_nat (length body))"
  by (simp add: literal_def CTL_append)

lemma ptr_add_literal:
  "n \<le> length body \<Longrightarrow> ptr_add (literal body) n = Inr (literal (drop n body))"
  by (simp add: ptr_add_def literal_def)

subsection \<open>The scan, one value of the counter at a time\<close>

lemma CTFV_4: "CTFV p tail 4 = Inr (tail - 4)"
  by (cases p) simp_all

lemma CTFV_Nil: "match \<noteq> 4 \<Longrightarrow> CTFV [] tail match = Inl OutOfBounds"
  by auto

lemma CTFV_0:
  "CTFV (c # cs) tail 0 =
     (if c = NUL then Inr (- 1) else CTFV cs (tail + 1) (if c = CHR ''v'' then 1 else 0))"
  by (simp add: index_def literal_def)

lemma CTFV_1:
  "CTFV (c # cs) tail 1 =
     (if c = NUL then Inr (- 1) else CTFV cs (tail + 1) (if c = CHR ''o'' then 2 else 0))"
  by (simp add: index_def literal_def)

lemma CTFV_2:
  "CTFV (c # cs) tail 2 =
     (if c = NUL then Inr (- 1) else CTFV cs (tail + 1) (if c = CHR ''i'' then 3 else 0))"
  by (simp add: index_def literal_def)

lemma CTFV_3:
  "CTFV (c # cs) tail 3 =
     (if c = NUL then Inr (- 1) else CTFV cs (tail + 1) (if c = CHR ''d'' then 4 else 0))"
  by (simp add: index_def literal_def)

lemma matches_0: "matches (c # cs) 0 = 0 # matches cs (if c = CHR ''v'' then 1 else 0)"
  by (simp add: index_def literal_def)
lemma matches_1: "matches (c # cs) 1 = 1 # matches cs (if c = CHR ''o'' then 2 else 0)"
  by (simp add: index_def literal_def)
lemma matches_2: "matches (c # cs) 2 = 2 # matches cs (if c = CHR ''i'' then 3 else 0)"
  by (simp add: index_def literal_def)
lemma matches_3: "matches (c # cs) 3 = 3 # matches cs (if c = CHR ''d'' then 4 else 0)"
  by (simp add: index_def literal_def)

lemmas CTFV_step = CTFV_4 CTFV_0 CTFV_1 CTFV_2 CTFV_3
lemmas matches_step = matches_0 matches_1 matches_2 matches_3

lemma CTFV_skip:
  "CHR ''v'' \<notin> set xs \<Longrightarrow> NUL \<notin> set xs \<Longrightarrow>
   CTFV (xs @ q) tail 0 = CTFV q (tail + of_nat (length xs)) 0"
proof (induction xs arbitrary: tail)
  case Nil
  show ?case by simp
next
  case (Cons c xs)
  then have "CTFV ((c # xs) @ q) tail 0 = CTFV (xs @ q) (tail + 1) 0"
    by (auto simp: CTFV_0 simp del: CTFV.simps)
  also have "\<dots> = CTFV q (tail + 1 + of_nat (length xs)) 0"
    using Cons by simp
  finally show ?case by (simp add: add.assoc)
qed

lemma CTFV_returns:
  "NUL \<notin> set xs \<Longrightarrow> m = 0 \<or> m = 1 \<or> m = 2 \<or> m = 3 \<or> m = 4 \<Longrightarrow>
   \<exists>v. CTFV (xs @ NUL # rest) tail m = Inr v"
proof (induction xs arbitrary: tail m)
  case Nil
  then show ?case by (auto simp: CTFV_step simp del: CTFV.simps)
next
  case (Cons c xs)
  then show ?case by (auto simp: CTFV_step simp del: CTFV.simps)
qed

lemma hd_matches: "hd (matches xs m) = m \<and> matches xs m \<noteq> []"
  by (cases xs) auto

lemma matches_not_4: "4 \<notin> set (matches xs m) \<Longrightarrow> m \<noteq> 4"
  using hd_matches [of xs m] by (metis list.set_sel(1))

lemma CTFV_never_completes:
  "NUL \<notin> set xs \<Longrightarrow> m = 0 \<or> m = 1 \<or> m = 2 \<or> m = 3 \<Longrightarrow> 4 \<notin> set (matches xs m) \<Longrightarrow>
   CTFV (xs @ NUL # rest) tail m = Inr (- 1)"
proof (induction xs arbitrary: tail m)
  case Nil
  then show ?case by (auto simp: CTFV_step simp del: CTFV.simps)
next
  case (Cons c xs)
  from Cons.prems show ?case
    by (elim disjE)
       (auto simp: CTFV_step matches_step simp del: CTFV.simps matches.simps
             intro!: Cons.IH dest: matches_not_4)
qed

lemma consumed_4:
  assumes "consumed xs 4"
  shows "\<exists>k. (of_nat (length xs) :: u32) - 4 = of_nat k \<and> take 4 (drop k (xs @ r)) = ''void''"
proof -
  from assms obtain ys where xs: "xs = ys @ ''void''"
    by (auto simp: consumed_def)
  have "(of_nat (length xs) :: u32) - 4 = of_nat (length ys)"
    by (simp add: xs)
  moreover have "take 4 (drop (length ys) (xs @ r)) = ''void''"
    by (simp add: xs)
  ultimately show ?thesis by blast
qed

lemma consumed_step:
  "consumed xs 0 \<Longrightarrow> consumed (xs @ [c]) (if c = CHR ''v'' then 1 else 0)"
  "consumed xs 1 \<Longrightarrow> consumed (xs @ [c]) (if c = CHR ''o'' then 2 else 0)"
  "consumed xs 2 \<Longrightarrow> consumed (xs @ [c]) (if c = CHR ''i'' then 3 else 0)"
  "consumed xs 3 \<Longrightarrow> consumed (xs @ [c]) (if c = CHR ''d'' then 4 else 0)"
  by (auto simp: consumed_def)

lemma consumed_cases:
  "consumed xs m \<Longrightarrow> m = 0 \<or> m = 1 \<or> m = 2 \<or> m = 3 \<or> m = 4"
  by (auto simp: consumed_def)

lemma CTFV_sound_gen:
  "CTFV q (of_nat (length xs)) m = Inr v \<Longrightarrow> NUL \<notin> set xs \<Longrightarrow> consumed xs m \<Longrightarrow>
   v = - 1 \<or> (\<exists>k. v = of_nat k \<and> take 4 (drop k (xs @ c_str q)) = ''void'')"
proof (induction q arbitrary: xs m)
  case Nil
  from Nil.prems(3) have "m = 4"
    using Nil.prems(1) by (cases "m = 4") (simp_all add: CTFV_Nil del: CTFV.simps)
  with Nil.prems show ?case
    using consumed_4 [of xs "c_str []"] by (auto simp: CTFV_4 simp del: CTFV.simps)
next
  case (Cons c cs)
  show ?case
  proof (cases "m = 4")
    case True
    with Cons.prems show ?thesis
      using consumed_4 [of xs "c_str (c # cs)"] by (auto simp: CTFV_4 simp del: CTFV.simps)
  next
    case m4: False
    show ?thesis
    proof (cases "c = NUL")
      case True
      with m4 Cons.prems(1) consumed_cases [OF Cons.prems(3)] show ?thesis
        by (auto simp: CTFV_step simp del: CTFV.simps)
    next
      case False
      have len: "(of_nat (length (xs @ [c])) :: u32) = of_nat (length xs) + 1"
        by simp
      have nul: "NUL \<notin> set (xs @ [c])"
        using False Cons.prems(2) by auto
      have app: "(xs @ [c]) @ c_str cs = xs @ c_str (c # cs)"
        using False by (simp add: c_str_Cons)
      from m4 consumed_cases [OF Cons.prems(3)]
      consider "m = 0" | "m = 1" | "m = 2" | "m = 3" by blast
      then show ?thesis
      proof cases
        case 1
        with Cons.prems False
        have "CTFV cs (of_nat (length (xs @ [c]))) (if c = CHR ''v'' then 1 else 0) = Inr v"
          by (simp add: CTFV_0 len del: CTFV.simps of_nat_add length_append)
        from Cons.IH [OF this nul] consumed_step(1) [of xs c] Cons.prems(3) 1 app
        show ?thesis by simp
      next
        case 2
        with Cons.prems False
        have "CTFV cs (of_nat (length (xs @ [c]))) (if c = CHR ''o'' then 2 else 0) = Inr v"
          by (simp add: CTFV_1 len del: CTFV.simps of_nat_add length_append)
        from Cons.IH [OF this nul] consumed_step(2) [of xs c] Cons.prems(3) 2 app
        show ?thesis by simp
      next
        case 3
        with Cons.prems False
        have "CTFV cs (of_nat (length (xs @ [c]))) (if c = CHR ''i'' then 3 else 0) = Inr v"
          by (simp add: CTFV_2 len del: CTFV.simps of_nat_add length_append)
        from Cons.IH [OF this nul] consumed_step(3) [of xs c] Cons.prems(3) 3 app
        show ?thesis by simp
      next
        case 4
        with Cons.prems False
        have "CTFV cs (of_nat (length (xs @ [c]))) (if c = CHR ''d'' then 4 else 0) = Inr v"
          by (simp add: CTFV_3 len del: CTFV.simps of_nat_add length_append)
        from Cons.IH [OF this nul] consumed_step(4) [of xs c] Cons.prems(3) 4 app
        show ?thesis by simp
      qed
    qed
  qed
qed

lemma CTFV_first_gen:
  assumes "NUL \<notin> set pre" and "consumed ys m" and "m \<noteq> 4"
    and "\<not> sublist ''void'' (ys @ pre @ ''voi'')"
    and "\<not> suffix ''v'' (ys @ pre)" and "\<not> suffix ''vo'' (ys @ pre)"
    and "\<not> suffix ''voi'' (ys @ pre)"
  shows "CTFV (pre @ ''void'' @ rest) (of_nat (length ys)) m = Inr (of_nat (length (ys @ pre)))"
  using assms
proof (induction pre arbitrary: ys m)
  case Nil
  then have "m = 0"
    by (auto simp: consumed_def suffix_def)
  then show ?case
    by (simp add: CTFV_step del: CTFV.simps)
next
  case (Cons c cs)
  have len: "(of_nat (length (ys @ [c])) :: u32) = of_nat (length ys) + 1"
    by simp
  have nul: "NUL \<notin> set cs" "c \<noteq> NUL"
    using Cons.prems(1) by auto
  have no4: "\<not> consumed (ys @ [c]) 4"
  proof
    assume "consumed (ys @ [c]) 4"
    then obtain zs where "ys @ [c] = zs @ ''void''"
      by (auto simp: consumed_def)
    then have "ys @ (c # cs) @ ''voi'' = zs @ ''void'' @ (cs @ ''voi'')"
      by (metis append.assoc append_Cons append_Nil)
    then have "sublist ''void'' (ys @ (c # cs) @ ''voi'')"
      unfolding sublist_def by blast
    with Cons.prems(4) show False by simp
  qed
  have IH: "CTFV (cs @ ''void'' @ rest) (of_nat (length (ys @ [c]))) m'
      = Inr (of_nat (length (ys @ c # cs)))"
    if "consumed (ys @ [c]) m'" for m'
  proof -
    from that no4 have "m' \<noteq> 4" by auto
    with Cons.IH [of "ys @ [c]" m'] that nul(1) Cons.prems(4-7) show ?thesis
      by simp
  qed
  from Cons.prems(3) consumed_cases [OF Cons.prems(2)]
  consider "m = 0" | "m = 1" | "m = 2" | "m = 3" by blast
  then show ?case
  proof cases
    case 1
    with consumed_step(1) [of ys c] Cons.prems(2) IH [of "if c = CHR ''v'' then 1 else 0"] nul(2)
    show ?thesis
      by (simp add: CTFV_0 add.commute del: CTFV.simps)
  next
    case 2
    with consumed_step(2) [of ys c] Cons.prems(2) IH [of "if c = CHR ''o'' then 2 else 0"] nul(2)
    show ?thesis
      by (simp add: CTFV_1 add.commute del: CTFV.simps)
  next
    case 3
    with consumed_step(3) [of ys c] Cons.prems(2) IH [of "if c = CHR ''i'' then 3 else 0"] nul(2)
    show ?thesis
      by (simp add: CTFV_2 add.commute del: CTFV.simps)
  next
    case 4
    with consumed_step(4) [of ys c] Cons.prems(2) IH [of "if c = CHR ''d'' then 4 else 0"] nul(2)
    show ?thesis
      by (simp add: CTFV_3 add.commute del: CTFV.simps)
  qed
qed

text \<open>
  When the first occurrence of \<^verbatim>\<open>void\<close> is not directly preceded by \<^verbatim>\<open>v\<close>, \<^verbatim>\<open>vo\<close> or
  \<^verbatim>\<open>voi\<close>, the scan returns its index; \<open>pre\<close> is the text before the occurrence. The
  signature that MSVC emits for \<^verbatim>\<open>FFN<void>\<close> is of this kind, like those of the other
  two compilers.
\<close>

lemma CTFV_first_occurrence:
  assumes "NUL \<notin> set pre" and "\<not> sublist ''void'' (pre @ ''voi'')"
    and "\<not> suffix ''v'' pre" and "\<not> suffix ''vo'' pre" and "\<not> suffix ''voi'' pre"
  shows "CTFV (pre @ ''void'' @ rest) 0 0 = Inr (of_nat (length pre))"
proof -
  have "consumed [] 0" by (simp add: consumed_def)
  from CTFV_first_gen [OF assms(1) this, of rest] assms(2-5) show ?thesis
    by simp
qed

lemma CTFV_first_occurrence_msvc:
  "NUL \<notin> set ''const char *__cdecl CTNR::Impl::FFN<''
   \<and> \<not> sublist ''void'' (''const char *__cdecl CTNR::Impl::FFN<'' @ ''voi'')
   \<and> \<not> suffix ''v'' ''const char *__cdecl CTNR::Impl::FFN<''
   \<and> \<not> suffix ''vo'' ''const char *__cdecl CTNR::Impl::FFN<''
   \<and> \<not> suffix ''voi'' ''const char *__cdecl CTNR::Impl::FFN<''
   \<and> CTFV (''const char *__cdecl CTNR::Impl::FFN<'' @ ''void'' @ literal ''>(void)'') 0 0 = Inr 36"
proof -
  have h1: "NUL \<notin> set ''const char *__cdecl CTNR::Impl::FFN<''" by simp
  have h2: "\<not> sublist ''void'' (''const char *__cdecl CTNR::Impl::FFN<'' @ ''voi'')"
    by (simp add: sublist_Cons_right)
  have h3: "\<not> suffix ''v'' ''const char *__cdecl CTNR::Impl::FFN<''"
    by (simp add: suffix_to_prefix)
  have h4: "\<not> suffix ''vo'' ''const char *__cdecl CTNR::Impl::FFN<''"
    by (simp add: suffix_to_prefix)
  have h5: "\<not> suffix ''voi'' ''const char *__cdecl CTNR::Impl::FFN<''"
    by (simp add: suffix_to_prefix)
  from CTFV_first_occurrence [OF h1 h2 h3 h4 h5, of "literal ''>(void)''"] h1 h2 h3 h4 h5
  show ?thesis by simp
qed

subsection \<open>The index sequence and the gather\<close>

lemma ISeq_upt: "ISeq Gen Is = map of_nat [0..<unat Gen] @ Is"
proof (induction Gen Is rule: ISeq.induct)
  case (1 Gen Is)
  show ?case
  proof (cases "Gen = 0")
    case True
    then show ?thesis by (simp add: ISeq.simps [of 0])
  next
    case False
    then have u: "unat Gen = Suc (unat (Gen - 1))"
      by (simp add: unat_minus_one unat_gt_0)
    have "ISeq Gen Is = ISeq (Gen - 1) ((Gen - 1) # Is)"
      using False by (simp add: ISeq.simps [of Gen])
    also have "\<dots> = map of_nat [0..<unat (Gen - 1)] @ (Gen - 1) # Is"
      using 1 False by simp
    also have "\<dots> = map of_nat [0..<unat Gen] @ Is"
      by (simp add: u)
    finally show ?thesis .
  qed
qed

lemma STN_ISeq: "STN N Gen Is p = STN_floor N (ISeq Gen Is) p"
proof (induction N Gen Is p rule: STN.induct)
  case (1 N Gen Is p)
  then show ?case
    by (cases "Gen = 0")
       (simp_all add: STN.simps [of N Gen] ISeq.simps [of Gen] STN.simps [of N 0] ISeq.simps [of 0])
qed

lemma gather_append:
  "gather p (is @ js) = bind (gather p is) (\<lambda>a. bind (gather p js) (\<lambda>b. Inr (a @ b)))"
  by (induction "is") (auto simp: bind_def split: sum.splits)

lemma gather_upt:
  "n \<le> length p \<Longrightarrow> n \<le> 2 ^ 32 \<Longrightarrow> gather p (map of_nat [0..<n]) = Inr (take n p)"
proof (induction n)
  case 0
  show ?case by simp
next
  case (Suc n)
  then have "unat (of_nat n :: u32) = n"
    by (simp add: unat_of_nat)
  with Suc show ?case
    by (simp add: gather_append index_def take_Suc_conv_app_nth)
qed

lemma gather_out_of_bounds:
  assumes "length p < n" and "n \<le> 2 ^ 32"
  shows "gather p (map of_nat [0..<n]) = Inl OutOfBounds"
proof -
  have u: "unat (of_nat (length p) :: u32) = length p"
    using assms by (simp add: unat_of_nat)
  have "[0..<n] = [0..<length p] @ length p # [Suc (length p)..<n]"
    using assms(1) by (metis less_imp_le_nat upt_add_eq_append upt_conv_Cons le_add_diff_inverse zero_le)
  then have "gather p (map of_nat [0..<n])
      = gather p (map of_nat [0..<length p] @ of_nat (length p) # map of_nat [Suc (length p)..<n])"
    by simp
  also have "\<dots> = Inl OutOfBounds"
    using assms(2) assms(1) by (simp add: gather_append gather_upt u index_def del: upt_Suc)
  finally show ?thesis .
qed

lemma STN_take:
  assumes "unat N \<le> length p" and "N + 1 \<noteq> 0"
  shows "STN N N [] p = Inr (take (unat N) p @ [NUL])"
proof -
  have "unat N \<le> 2 ^ 32"
    using unsigned_less [of N, where 'a = nat] by simp
  with assms(1) have "gather p (ISeq N []) = Inr (take (unat N) p)"
    by (simp add: ISeq_upt gather_upt)
  moreover have "unat (N + 1) = Suc (unat N)"
    using assms(2) by (metis add.commute unatSuc)
  ultimately show ?thesis
    using assms by (simp add: STN_ISeq STN_floor_def CSW_def)
qed

lemma STN_out_of_bounds:
  assumes "length p < unat N"
  shows "STN N N [] p = Inl OutOfBounds"
proof -
  have "unat N \<le> 2 ^ 32"
    using unsigned_less [of N, where 'a = nat] by simp
  with assms have "gather p (ISeq N []) = Inl OutOfBounds"
    by (simp add: ISeq_upt gather_out_of_bounds)
  then show ?thesis
    by (simp add: STN_ISeq STN_floor_def)
qed

lemma unat_le_2p32: "unat (N :: u32) < 2 ^ 32"
  using unsigned_less [of N, where 'a = nat] by simp

lemma set_ISeq: "set (ISeq N []) = {i. i < N}"
proof -
  have "i < N \<longleftrightarrow> i \<in> of_nat ` {0..<unat N}" for i :: u32
  proof
    assume "i < N"
    then have "unat i < unat N" by (simp add: word_less_nat_alt)
    then have "unat i \<in> {0..<unat N}" by simp
    then have "of_nat (unat i) \<in> (of_nat ` {0..<unat N} :: u32 set)" by (rule imageI)
    then show "i \<in> of_nat ` {0..<unat N}" by simp
  next
    assume "i \<in> of_nat ` {0..<unat N}"
    then obtain k where k: "k < unat N" "i = of_nat k" by auto
    with unat_le_2p32 [of N] have "unat i = k" by (simp add: unat_of_nat)
    with k(1) show "i < N" by (simp add: word_less_nat_alt)
  qed
  then show ?thesis by (auto simp: ISeq_upt)
qed

lemma sorted_ISeq: "sorted_wrt (<) (ISeq N [])"
proof -
  have "(of_nat i :: u32) < of_nat j" if "i < j" "j < unat N" for i j
  proof -
    from that unat_le_2p32 [of N] have "unat (of_nat i :: u32) = i" "unat (of_nat j :: u32) = j"
      by (simp_all add: unat_of_nat)
    with that(1) show ?thesis by (simp add: word_less_nat_alt)
  qed
  then show ?thesis
    by (simp add: ISeq_upt sorted_wrt_iff_nth_less)
qed

subsection \<open>The name record of a signature\<close>

lemma s_Len_literal:
  assumes st: "s_OffsetStart sigv = Inr start" and re: "s_OffsetREnd sigv = Inr rend"
    and nul: "NUL \<notin> set body" and le: "unat start \<le> length body"
  shows "s_Len sigv (literal body) = Inr (of_nat (length body) - start - rend)"
proof -
  have "NUL \<notin> set (drop (unat start) body)"
    using nul by (auto dest: in_set_dropD)
  then have "CTL (literal (drop (unat start) body)) 0 = Inr (of_nat (length body - unat start))"
    by (simp add: CTL_literal)
  moreover have "(of_nat (length body - unat start) :: u32) = of_nat (length body) - start"
    using le by simp
  ultimately show ?thesis
    using st re le by (simp add: s_Len_def ptr_add_literal)
qed

lemma s_OffsetREnd_bound:
  assumes re: "s_OffsetREnd sigv = Inr rend" and len: "length sigv < 2 ^ 32"
  shows "Suc (unat rend) < 2 ^ 32"
proof -
  from re obtain q where q: "CTL q 0 = Inr rend" "length q \<le> length sigv"
    by (auto simp: s_OffsetREnd_def bind_def ptr_add_def split: sum.splits if_splits)
  from q(1) have nul: "NUL \<in> set q" by (rule CTL_Inr_NUL)
  then have "rend = of_nat (length (c_str q))"
    using q(1) by (simp add: CTL_c_str)
  moreover have "length (c_str q) < length q"
    using nul by (rule length_c_str_less)
  ultimately show ?thesis
    using q(2) len by (simp add: unat_of_nat)
qed

lemma s_Str_literal:
  assumes st: "s_OffsetStart sigv = Inr start" and re: "s_OffsetREnd sigv = Inr rend"
    and nul: "NUL \<notin> set body" and le: "unat start + unat rend \<le> length body"
    and len: "length (literal body) < 2 ^ 32"
  shows "s_Str sigv (literal body) =
         Inr (literal (take (length body - unat start - unat rend) (drop (unat start) body)))"
proof -
  define n where "n = length body - unat start - unat rend"
  define N :: u32 where "N = of_nat n"
  define p where "p = literal (drop (unat start) body)"
  have "(of_nat (length body) :: u32) - start - rend
        = of_nat (length body) - of_nat (unat start) - of_nat (unat rend)"
    by simp
  also have "\<dots> = N"
    unfolding N_def n_def using le by (simp del: of_nat_unat)
  finally have sl: "s_Len sigv (literal body) = Inr N"
    using s_Len_literal [OF st re nul] le by simp
  have n: "Suc n < 2 ^ 32"
    using len by (simp add: literal_def n_def)
  then have un: "unat N = n"
    by (simp add: N_def unat_of_nat)
  have "unat (N + 1) = Suc n"
    using n by (simp add: N_def unat_word_ariths unat_of_nat)
  then have "N + 1 \<noteq> 0"
    by (metis unat_0 nat.distinct(1))
  moreover have "unat N \<le> length p"
    by (simp add: un literal_def n_def p_def)
  ultimately have "STN N N [] p = Inr (take (unat N) p @ [NUL])"
    by (rule STN_take [rotated])
  also have "take (unat N) p = take n (drop (unat start) body)"
    by (simp add: un literal_def n_def p_def)
  finally have "STN N N [] p = Inr (literal (take n (drop (unat start) body)))"
    by (simp add: literal_def)
  then show ?thesis
    using sl st le by (simp add: s_Str_def ptr_add_literal p_def n_def)
qed

lemma s_Str_negative:
  assumes st: "s_OffsetStart sigv = Inr start" and re: "s_OffsetREnd sigv = Inr rend"
    and len: "length sigv < 2 ^ 32"
    and nul: "NUL \<notin> set body" and le: "unat start \<le> length body"
    and neg: "length body - unat start < unat rend"
  shows "s_Str sigv (literal body) = Inl OutOfBounds"
proof -
  let ?l = "length body - unat start"
  let ?N = "of_nat (length body) - start - rend :: u32"
  have sl: "s_Len sigv (literal body) = Inr ?N"
    by (rule s_Len_literal [OF st re nul le])
  have r: "Suc (unat rend) < 2 ^ 32"
    by (rule s_OffsetREnd_bound [OF re len])
  have "?N = of_nat ?l - rend"
    using le by simp
  moreover have "unat (of_nat ?l :: u32) = ?l"
    using neg r by (simp add: unat_of_nat)
  ultimately have "unat ?N = 2 ^ 32 + ?l - unat rend"
    using neg by (simp add: unat_sub_if_size word_size)
  then have "length (literal (drop (unat start) body)) < unat ?N"
    using r neg by (simp add: literal_def)
  then have "STN ?N ?N [] (literal (drop (unat start) body)) = Inl OutOfBounds"
    by (rule STN_out_of_bounds)
  then show ?thesis
    using sl st le by (simp add: s_Str_def ptr_add_literal)
qed

lemma not_found_fails:
  assumes st: "s_OffsetStart sigv = Inr (- 1)" and len: "length sigv < 2 ^ 32"
  shows "s_OffsetREnd sigv = Inl OutOfBounds"
proof -
  have "unat (- 1 :: u32) = 2 ^ 32 - 1"
    by (simp add: unsigned_minus_1_eq_mask mask_eq_exp_minus_1)
  then show ?thesis
    using st len by (simp add: s_OffsetREnd_def ptr_add_def)
qed

lemma GetName_FFN:
  assumes pre: "NUL \<notin> set pre" and suf: "NUL \<notin> set suf" and name: "NUL \<notin> set name"
    and start: "s_OffsetStart (FFN pre suf ''void'') = Inr (of_nat (length pre))"
    and len: "length (FFN pre suf name) < 2 ^ 32"
  shows "GetName (FFN pre suf ''void'') (FFN pre suf name) = Inr (literal name)"
proof -
  have lpre: "unat (of_nat (length pre) :: u32) = length pre"
    using len by (simp add: FFN_def literal_def unat_of_nat)
  have lsuf: "unat (of_nat (length suf) :: u32) = length suf"
    using len by (simp add: FFN_def literal_def unat_of_nat)
  define pv where "pv = ''void'' @ literal suf"
  have p: "ptr_add (FFN pre suf ''void'') (length pre) = Inr pv"
    by (simp add: FFN_def literal_def ptr_add_def pv_def)
  have q: "ptr_add pv 4 = Inr (literal suf)"
    by (simp add: ptr_add_def pv_def)
  have "CTL (literal suf) 0 = Inr (of_nat (length suf))"
    using suf by (simp add: CTL_literal)
  then have rend: "s_OffsetREnd (FFN pre suf ''void'') = Inr (of_nat (length suf))"
    by (simp add: s_OffsetREnd_def start lpre p q)
  have "s_Str (FFN pre suf ''void'') (literal (pre @ name @ suf))
        = Inr (literal (take (length (pre @ name @ suf) - unat (of_nat (length pre) :: u32)
                - unat (of_nat (length suf) :: u32))
             (drop (unat (of_nat (length pre) :: u32)) (pre @ name @ suf))))"
    using start rend
  proof (rule s_Str_literal)
    show "NUL \<notin> set (pre @ name @ suf)"
      using pre suf name by simp
    show "unat (of_nat (length pre) :: u32) + unat (of_nat (length suf) :: u32)
        \<le> length (pre @ name @ suf)"
      by (simp add: lpre lsuf)
    show "length (literal (pre @ name @ suf)) < 2 ^ 32"
      using len by (simp add: FFN_def)
  qed
  then show ?thesis
    by (simp add: GetName_def FFN_def lpre lsuf)
qed

subsection \<open>The calibration of one compiler\<close>

text \<open>
  The signature of \<^verbatim>\<open>FFN<void>\<close> as \<^verbatim>\<open>clang++\<close> spells it: the name starts at offset 35
  and one character follows it.
\<close>

lemma clang_start:
  "s_OffsetStart (literal ''const char *CTNR::Impl::FFN() [T = void]'') = Inr 35"
  by (simp add: s_OffsetStart_def literal_def CTFV_step del: CTFV.simps)

lemma clang_rend:
  "s_OffsetREnd (literal ''const char *CTNR::Impl::FFN() [T = void]'') = Inr 1"
  by (simp add: s_OffsetREnd_def clang_start) (simp add: literal_def ptr_add_def)

section \<open>The claims\<close>

subsection \<open>The reference type\<close>

text \<open>
  Claim C1: when the signature of \<^verbatim>\<open>void\<close> reads \<^verbatim>\<open>void\<close> at the calibrated start offset,
  the name record of \<^verbatim>\<open>void\<close> has the length 4 and \<open>GetName\<close> returns the array of the
  characters \<^verbatim>\<open>v\<close>, \<^verbatim>\<open>o\<close>, \<^verbatim>\<open>i\<close>, \<^verbatim>\<open>d\<close> and the terminator. The signature is the array
  of any string literal; no bound on its length is needed, since the two counts whose
  difference is the length wrap around alike.
\<close>

theorem GetName_void:
  assumes start: "s_OffsetStart (literal body) = Inr start"
    and void: "take 4 (drop (unat start) body) = ''void''"
  shows "s_Len (literal body) (literal body) = Inr 4
         \<and> GetName (literal body) (literal body) = Inr (literal ''void'')"
proof -
  define rest where "rest = drop 4 (drop (unat start) body)"
  have "length (take 4 (drop (unat start) body)) = 4"
    by (simp add: void)
  then have le: "unat start \<le> length body"
    by (auto split: if_splits)
  have "drop (unat start) body = take 4 (drop (unat start) body) @ rest"
    unfolding rest_def by (rule append_take_drop_id [symmetric])
  then have d: "drop (unat start) body = ''void'' @ rest"
    by (simp only: void)
  define pv where "pv = ''void'' @ literal rest"
  have p: "ptr_add (literal body) (unat start) = Inr pv"
    using le by (simp add: ptr_add_literal d pv_def) (simp add: literal_def)
  have q: "ptr_add pv 4 = Inr (literal rest)"
    by (simp add: ptr_add_def pv_def)
  have nul: "NUL \<in> set (literal rest)"
    by (simp add: literal_def)
  define r :: u32 where "r = of_nat (length (c_str (literal rest)))"
  have ctl: "CTL (literal rest) tail = Inr (tail + r)" for tail
    by (simp add: CTL_c_str [OF nul] r_def)
  have "CTL pv 0 = CTL (literal rest) (0 + of_nat (length ''void''))"
    unfolding pv_def by (rule CTL_append) simp
  then have ctl4: "CTL pv 0 = Inr (4 + r)"
    by (simp add: ctl)
  have rend: "s_OffsetREnd (literal body) = Inr r"
    using ctl [of 0] by (simp add: s_OffsetREnd_def start p q)
  have len: "s_Len (literal body) (literal body) = Inr 4"
    by (simp add: s_Len_def start rend p ctl4)
  have "STN 4 4 [] pv = Inr (take (unat (4 :: u32)) pv @ [NUL])"
    by (rule STN_take) (simp_all add: pv_def)
  then have "STN 4 4 [] pv = Inr (literal ''void'')"
    by (simp add: literal_def pv_def)
  then have "GetName (literal body) (literal body) = Inr (literal ''void'')"
    by (simp add: GetName_def s_Str_def len start p)
  with len show ?thesis by simp
qed

theorem GetName_void_witness:
  "s_OffsetStart (literal ''const char *CTNR::Impl::FFN() [T = void]'') = Inr 35
   \<and> take 4 (drop (unat (35 :: u32)) ''const char *CTNR::Impl::FFN() [T = void]'') = ''void''
   \<and> GetName (literal ''const char *CTNR::Impl::FFN() [T = void]'')
        (literal ''const char *CTNR::Impl::FFN() [T = void]'') = Inr (literal ''void'')"
proof -
  have h1: "s_OffsetStart (literal ''const char *CTNR::Impl::FFN() [T = void]'') = Inr 35"
    by (simp add: s_OffsetStart_def literal_def CTFV_step del: CTFV.simps)
  have h2: "take 4 (drop (unat (35 :: u32)) ''const char *CTNR::Impl::FFN() [T = void]'') = ''void''"
    by simp
  from GetName_void [OF h1 h2] h1 h2 show ?thesis by blast
qed

subsection \<open>The scan\<close>

text \<open>
  Claim C2: for every null-terminated string that contains \<^verbatim>\<open>void\<close> as a contiguous run,
  \<open>CTFV\<close> returns the index of the first occurrence of the run. The scan misses a case:
  on a mismatch it sets the counter to 0 and does not compare the mismatching character
  with the first character of the literal. In \<^verbatim>\<open>vvoid\<close> the run begins at index 1, and
  the scan returns its value for a literal that was not found.
\<close>

theorem CTFV_vvoid:
  "CTFV (literal ''vvoid'') 0 0 = Inr 4294967295
   \<and> take 4 (drop 1 (c_str (literal ''vvoid''))) = ''void''"
  by (simp add: literal_def c_str_def CTFV_step del: CTFV.simps)

subsection \<open>The span of a name\<close>

text \<open>
  Claim C3: for the signature of a type \<open>T\<close>, the length of the name record is the length
  of the whole signature, counted by \<open>CTL\<close> up to the terminator, minus the calibrated
  start offset minus the calibrated suffix length, and the materialized content is the
  substring of the signature between the two calibrated boundaries, followed by the
  terminator. The signature is the array of a string literal without an embedded
  terminator, of a size that an \<^verbatim>\<open>unsigned\<close> can hold, and long enough for the prefix
  and the suffix (the invariant of the name record: its length is not negative).
\<close>

theorem s_Len_span:
  assumes "s_OffsetStart sigv = Inr start" and "s_OffsetREnd sigv = Inr rend"
    and "NUL \<notin> set body" and "unat start + unat rend \<le> length body"
    and "length (literal body) < 2 ^ 32"
  shows "CTL (literal body) 0 = Inr (of_nat (length body))
         \<and> unat (of_nat (length body) :: u32) = length body
         \<and> s_Len sigv (literal body) = Inr (of_nat (length body) - start - rend)
         \<and> unat (of_nat (length body) - start - rend :: u32) = length body - unat start - unat rend
         \<and> GetName sigv (literal body) =
             Inr (literal (take (length body - unat start - unat rend) (drop (unat start) body)))"
proof (intro conjI)
  show "CTL (literal body) 0 = Inr (of_nat (length body))"
    using assms(3) by (simp add: CTL_literal)
  show "unat (of_nat (length body) :: u32) = length body"
    using assms(5) by (simp add: unat_of_nat literal_def)
  show "s_Len sigv (literal body) = Inr (of_nat (length body) - start - rend)"
    using assms by (intro s_Len_literal) simp_all
  have "(of_nat (length body) :: u32) - start - rend
        = of_nat (length body) - of_nat (unat start) - of_nat (unat rend)"
    by simp
  also have "\<dots> = of_nat (length body - unat start - unat rend)"
    using assms(4) by (simp del: of_nat_unat)
  finally show "unat (of_nat (length body) - start - rend :: u32)
      = length body - unat start - unat rend"
    using assms(5) by (simp add: unat_of_nat literal_def)
  show "GetName sigv (literal body) =
      Inr (literal (take (length body - unat start - unat rend) (drop (unat start) body)))"
    unfolding GetName_def using assms by (rule s_Str_literal)
qed

theorem s_Len_span_witness:
  "s_OffsetStart (literal ''const char *CTNR::Impl::FFN() [T = void]'') = Inr 35
   \<and> s_OffsetREnd (literal ''const char *CTNR::Impl::FFN() [T = void]'') = Inr 1
   \<and> NUL \<notin> set ''const char *CTNR::Impl::FFN() [T = structy<classy>]''
   \<and> unat (35 :: u32) + unat (1 :: u32) \<le> length ''const char *CTNR::Impl::FFN() [T = structy<classy>]''
   \<and> length (literal ''const char *CTNR::Impl::FFN() [T = structy<classy>]'') < 2 ^ 32
   \<and> s_Len (literal ''const char *CTNR::Impl::FFN() [T = void]'')
        (literal ''const char *CTNR::Impl::FFN() [T = structy<classy>]'') = Inr 15
   \<and> GetName (literal ''const char *CTNR::Impl::FFN() [T = void]'')
        (literal ''const char *CTNR::Impl::FFN() [T = structy<classy>]'')
       = Inr (literal ''structy<classy>'')"
proof -
  have h3: "NUL \<notin> set ''const char *CTNR::Impl::FFN() [T = structy<classy>]''"
    by simp
  have h4: "unat (35 :: u32) + unat (1 :: u32)
      \<le> length ''const char *CTNR::Impl::FFN() [T = structy<classy>]''"
    by simp
  have h5: "length (literal ''const char *CTNR::Impl::FFN() [T = structy<classy>]'') < 2 ^ 32"
    by (simp add: literal_def)
  from s_Len_span [OF clang_start clang_rend h3 h4 h5] clang_start clang_rend h3 h4 h5
  show ?thesis by simp
qed

subsection \<open>The materializer\<close>

text \<open>
  Claim C4: for a start offset and a length \<open>N\<close> whose span lies inside the signature and
  before its last character, in an array of a size that an \<^verbatim>\<open>unsigned\<close> can hold, the
  recursive expansion generates the indices \<open>0, 1, \<dots>, N - 1\<close> in increasing order, and
  the materializer produces the array of \<open>N + 1\<close> characters whose first \<open>N\<close> are the
  characters \<open>[start, start + N)\<close> of the signature and whose last is the terminator.
\<close>

theorem STN_materializes:
  assumes "start + unat N < length sig" and "length sig < 2 ^ 32"
  shows "ISeq N [] = map of_nat [0..<unat N]
         \<and> sorted_wrt (<) (ISeq N []) \<and> set (ISeq N []) = {i. i < N}
         \<and> ptr_add sig start = Inr (drop start sig)
         \<and> STN N N [] (drop start sig) = Inr (take (unat N) (drop start sig) @ [NUL])
         \<and> length (take (unat N) (drop start sig) @ [NUL]) = unat N + 1"
proof (intro conjI)
  show "ISeq N [] = map of_nat [0..<unat N]" by (simp add: ISeq_upt)
  show "sorted_wrt (<) (ISeq N [])" by (rule sorted_ISeq)
  show "set (ISeq N []) = {i. i < N}" by (rule set_ISeq)
  show "ptr_add sig start = Inr (drop start sig)"
    using assms(1) by (simp add: ptr_add_def)
  have "Suc (unat N) < 2 ^ 32"
    using assms by simp
  then have "unat (N + 1) = Suc (unat N)"
    by (simp add: unat_word_ariths)
  then have "N + 1 \<noteq> 0"
    by (metis unat_0 nat.distinct(1))
  moreover have "unat N \<le> length (drop start sig)"
    using assms(1) by simp
  ultimately show "STN N N [] (drop start sig) = Inr (take (unat N) (drop start sig) @ [NUL])"
    by (rule STN_take [rotated])
  show "length (take (unat N) (drop start sig) @ [NUL]) = unat N + 1"
    using assms(1) by simp
qed

theorem STN_materializes_witness:
  "35 + unat (15 :: u32) < length (literal ''const char *CTNR::Impl::FFN() [T = structy<classy>]'')
   \<and> length (literal ''const char *CTNR::Impl::FFN() [T = structy<classy>]'') < 2 ^ 32
   \<and> ISeq 15 [] = [0, 1, 2, 3, 4, 5, 6, 7, 8, 9, 10, 11, 12, 13, 14]
   \<and> STN 15 15 [] (drop 35 (literal ''const char *CTNR::Impl::FFN() [T = structy<classy>]''))
       = Inr (literal ''structy<classy>'')"
proof -
  have h1: "35 + unat (15 :: u32)
      < length (literal ''const char *CTNR::Impl::FFN() [T = structy<classy>]'')"
    by (simp add: literal_def)
  have h2: "length (literal ''const char *CTNR::Impl::FFN() [T = structy<classy>]'') < 2 ^ 32"
    by (simp add: literal_def)
  have "[0..<15] = [0, 1, 2, 3, 4, 5, 6, 7, 8, 9, 10, 11, 12, 13, 14]"
    by (simp add: upt_rec)
  with STN_materializes [OF h1 h2] h1 h2 show ?thesis
    by (simp add: literal_def)
qed

subsection \<open>Failure of the calibration\<close>

text \<open>
  Claim C5, as stated: when the literal is never found in the reference signature, the
  failure is reported as an error with a diagnostic of its own and no wrong offset is
  produced silently. The header has no such check: the scan ends normally and the start
  offset is the ordinary value \<open>2 ^ 32 - 1\<close>. Here for a signature that does not show the
  template argument.
\<close>

theorem s_OffsetStart_silent:
  "s_OffsetStart (literal ''const char *CTNR::Impl::FFN()'') = Inr 4294967295"
  by (simp add: s_OffsetStart_def literal_def CTFV_step del: CTFV.simps)

text \<open>
  Claim C5, amended: when the literal is never found in a reference signature of fewer
  than \<open>2 ^ 32\<close> characters, the start offset is \<open>2 ^ 32 - 1\<close> and is produced without an
  error; the initialiser of the suffix length then forms a pointer outside the array of
  the signature, so its constant evaluation fails and with it that of every length and
  every name. When the length computed for a type is negative (the signature has fewer
  characters after the start offset than the suffix length), it wraps around to a large
  \<^verbatim>\<open>unsigned\<close> and the reads of the materializer leave the array of the signature: the
  constant evaluation of the name fails. Both are failures of the build; neither has a
  diagnostic of its own.
\<close>

theorem calibration_failure:
  "(NUL \<in> set sigv \<and> 4 \<notin> set (matches (c_str sigv) 0) \<and> length sigv < 2 ^ 32 \<longrightarrow>
      s_OffsetStart sigv = Inr (- 1) \<and> s_OffsetREnd sigv = Inl OutOfBounds
      \<and> s_Len sigv sigT = Inl OutOfBounds \<and> GetName sigv sigT = Inl OutOfBounds)
   \<and> (s_OffsetStart sigv = Inr start \<and> s_OffsetREnd sigv = Inr rend \<and> length sigv < 2 ^ 32
      \<and> NUL \<notin> set body \<and> unat start \<le> length body \<and> length body - unat start < unat rend \<longrightarrow>
      s_Len sigv (literal body) = Inr (of_nat (length body) - start - rend)
      \<and> GetName sigv (literal body) = Inl OutOfBounds)"
proof (intro conjI impI)
  assume a: "NUL \<in> set sigv \<and> 4 \<notin> set (matches (c_str sigv) 0) \<and> length sigv < 2 ^ 32"
  then obtain rest where p: "sigv = c_str sigv @ NUL # rest"
    using c_str_split by blast
  have "CTFV (c_str sigv @ NUL # rest) 0 0 = Inr (- 1)"
    using a by (intro CTFV_never_completes c_str_no_NUL) simp_all
  with p show st: "s_OffsetStart sigv = Inr (- 1)"
    by (simp add: s_OffsetStart_def)
  from st a show re: "s_OffsetREnd sigv = Inl OutOfBounds"
    by (intro not_found_fails) simp_all
  from st re show sl: "s_Len sigv sigT = Inl OutOfBounds"
    by (simp add: s_Len_def)
  then show "GetName sigv sigT = Inl OutOfBounds"
    by (simp add: GetName_def s_Str_def)
next
  assume b: "s_OffsetStart sigv = Inr start \<and> s_OffsetREnd sigv = Inr rend \<and> length sigv < 2 ^ 32
      \<and> NUL \<notin> set body \<and> unat start \<le> length body \<and> length body - unat start < unat rend"
  then show "s_Len sigv (literal body) = Inr (of_nat (length body) - start - rend)"
    by (intro s_Len_literal) simp_all
  from b show "GetName sigv (literal body) = Inl OutOfBounds"
    unfolding GetName_def by (intro s_Str_negative [of sigv start rend]) simp_all
qed

theorem calibration_failure_witness:
  "(NUL \<in> set (literal ''const char *CTNR::Impl::FFN()'')
    \<and> 4 \<notin> set (matches (c_str (literal ''const char *CTNR::Impl::FFN()'')) 0)
    \<and> length (literal ''const char *CTNR::Impl::FFN()'') < 2 ^ 32
    \<and> GetName (literal ''const char *CTNR::Impl::FFN()'') (literal ''const char *CTNR::Impl::FFN()'')
        = Inl OutOfBounds)
   \<and> (s_OffsetStart (literal ''const char *CTNR::Impl::FFN() [T = void]'') = Inr 35
    \<and> s_OffsetREnd (literal ''const char *CTNR::Impl::FFN() [T = void]'') = Inr 1
    \<and> length (literal ''const char *CTNR::Impl::FFN() [T = void]'') < 2 ^ 32
    \<and> NUL \<notin> set ''const char *CTNR::Impl::FFN() [T = ''
    \<and> unat (35 :: u32) \<le> length ''const char *CTNR::Impl::FFN() [T = ''
    \<and> length ''const char *CTNR::Impl::FFN() [T = '' - unat (35 :: u32) < unat (1 :: u32)
    \<and> s_Len (literal ''const char *CTNR::Impl::FFN() [T = void]'')
         (literal ''const char *CTNR::Impl::FFN() [T = '') = Inr 4294967295
    \<and> GetName (literal ''const char *CTNR::Impl::FFN() [T = void]'')
         (literal ''const char *CTNR::Impl::FFN() [T = '') = Inl OutOfBounds)"
proof -
  have a: "NUL \<in> set (literal ''const char *CTNR::Impl::FFN()'')
    \<and> 4 \<notin> set (matches (c_str (literal ''const char *CTNR::Impl::FFN()'')) 0)
    \<and> length (literal ''const char *CTNR::Impl::FFN()'') < 2 ^ 32"
    by (simp add: c_str_literal matches_step del: matches.simps(2)) (simp add: literal_def)
  have b: "s_OffsetStart (literal ''const char *CTNR::Impl::FFN() [T = void]'') = Inr 35
    \<and> s_OffsetREnd (literal ''const char *CTNR::Impl::FFN() [T = void]'') = Inr 1
    \<and> length (literal ''const char *CTNR::Impl::FFN() [T = void]'') < 2 ^ 32
    \<and> NUL \<notin> set ''const char *CTNR::Impl::FFN() [T = ''
    \<and> unat (35 :: u32) \<le> length ''const char *CTNR::Impl::FFN() [T = ''
    \<and> length ''const char *CTNR::Impl::FFN() [T = '' - unat (35 :: u32) < unat (1 :: u32)"
    by (simp add: clang_start clang_rend) (simp add: literal_def)
  have 1: "GetName (literal ''const char *CTNR::Impl::FFN()'') (literal ''const char *CTNR::Impl::FFN()'')
        = Inl OutOfBounds"
    using calibration_failure [of "literal ''const char *CTNR::Impl::FFN()''"
        "literal ''const char *CTNR::Impl::FFN()''"] a
    by blast
  have 2: "s_Len (literal ''const char *CTNR::Impl::FFN() [T = void]'')
         (literal ''const char *CTNR::Impl::FFN() [T = '') = Inr (of_nat (length ''const char *CTNR::Impl::FFN() [T = '') - 35 - 1)
    \<and> GetName (literal ''const char *CTNR::Impl::FFN() [T = void]'')
         (literal ''const char *CTNR::Impl::FFN() [T = '') = Inl OutOfBounds"
    using calibration_failure [of "literal ''const char *CTNR::Impl::FFN() [T = void]''" _
        35 1 "''const char *CTNR::Impl::FFN() [T = ''"] b
    by blast
  have 3: "(of_nat (length ''const char *CTNR::Impl::FFN() [T = '') - 35 - 1 :: u32) = 4294967295"
    by simp
  from a b 1 2 3 show ?thesis by simp
qed

subsection \<open>Distinct spellings\<close>

text \<open>
  Claim C6: for two types \<open>A\<close> and \<open>B\<close> whose spellings in the signatures of the compiler
  differ, the arrays that \<open>GetName\<close> returns differ in content, read up to the
  terminator. The hypotheses are on the text of the compiler only: the boilerplate
  before the name does not contain \<^verbatim>\<open>void\<close> and does not end in a beginning of it (the
  reference type is one whose name is not found in the boilerplate, section 4.2 of the
  specification), no text has an embedded terminator, and the arrays have sizes that an
  \<^verbatim>\<open>unsigned\<close> can hold. The calibration scan then finds \<^verbatim>\<open>void\<close> where the prefix ends,
  and both names are the spellings themselves.
\<close>

theorem GetName_distinct:
  assumes "NUL \<notin> set pre" and "NUL \<notin> set suf" and "NUL \<notin> set A" and "NUL \<notin> set B"
    and "\<not> sublist ''void'' (pre @ ''voi'')"
    and "\<not> suffix ''v'' pre" and "\<not> suffix ''vo'' pre" and "\<not> suffix ''voi'' pre"
    and "length (FFN pre suf A) < 2 ^ 32" and "length (FFN pre suf B) < 2 ^ 32"
    and "A \<noteq> B"
  shows "s_OffsetStart (FFN pre suf ''void'') = Inr (of_nat (length pre))
         \<and> GetName (FFN pre suf ''void'') (FFN pre suf A) = Inr (literal A)
         \<and> GetName (FFN pre suf ''void'') (FFN pre suf B) = Inr (literal B)
         \<and> c_str (literal A) \<noteq> c_str (literal B)"
proof -
  have "CTFV (pre @ ''void'' @ literal suf) 0 0 = Inr (of_nat (length pre))"
    using assms(1,5-8) by (rule CTFV_first_occurrence)
  moreover have "FFN pre suf ''void'' = pre @ ''void'' @ literal suf"
    by (simp add: FFN_def literal_def)
  ultimately have st: "s_OffsetStart (FFN pre suf ''void'') = Inr (of_nat (length pre))"
    by (simp only: s_OffsetStart_def)
  have "GetName (FFN pre suf ''void'') (FFN pre suf A) = Inr (literal A)"
    using assms(1,2,3) st assms(9) by (rule GetName_FFN)
  moreover have "GetName (FFN pre suf ''void'') (FFN pre suf B) = Inr (literal B)"
    using assms(1,2,4) st assms(10) by (rule GetName_FFN)
  moreover have "c_str (literal A) \<noteq> c_str (literal B)"
    using assms(3,4,11) by (simp add: c_str_literal)
  ultimately show ?thesis using st by simp
qed

theorem GetName_distinct_witness:
  "NUL \<notin> set ''const char *CTNR::Impl::FFN() [T = '' \<and> NUL \<notin> set '']''
   \<and> NUL \<notin> set ''classy'' \<and> NUL \<notin> set ''structy<classy>''
   \<and> \<not> sublist ''void'' (''const char *CTNR::Impl::FFN() [T = '' @ ''voi'')
   \<and> \<not> suffix ''v'' ''const char *CTNR::Impl::FFN() [T = ''
   \<and> \<not> suffix ''vo'' ''const char *CTNR::Impl::FFN() [T = ''
   \<and> \<not> suffix ''voi'' ''const char *CTNR::Impl::FFN() [T = ''
   \<and> length (FFN ''const char *CTNR::Impl::FFN() [T = '' '']'' ''classy'') < 2 ^ 32
   \<and> length (FFN ''const char *CTNR::Impl::FFN() [T = '' '']'' ''structy<classy>'') < 2 ^ 32
   \<and> ''classy'' \<noteq> ''structy<classy>''
   \<and> GetName (FFN ''const char *CTNR::Impl::FFN() [T = '' '']'' ''void'')
        (FFN ''const char *CTNR::Impl::FFN() [T = '' '']'' ''classy'') = Inr (literal ''classy'')
   \<and> GetName (FFN ''const char *CTNR::Impl::FFN() [T = '' '']'' ''void'')
        (FFN ''const char *CTNR::Impl::FFN() [T = '' '']'' ''structy<classy>'')
       = Inr (literal ''structy<classy>'')
   \<and> c_str (literal ''classy'') \<noteq> c_str (literal ''structy<classy>'')"
proof -
  have h1: "NUL \<notin> set ''const char *CTNR::Impl::FFN() [T = ''" by simp
  have h2: "NUL \<notin> set '']''" by simp
  have h3: "NUL \<notin> set ''classy''" by simp
  have h4: "NUL \<notin> set ''structy<classy>''" by simp
  have h5: "\<not> sublist ''void'' (''const char *CTNR::Impl::FFN() [T = '' @ ''voi'')"
    by (simp add: sublist_Cons_right)
  have h6: "\<not> suffix ''v'' ''const char *CTNR::Impl::FFN() [T = ''"
    by (simp add: suffix_to_prefix)
  have h7: "\<not> suffix ''vo'' ''const char *CTNR::Impl::FFN() [T = ''"
    by (simp add: suffix_to_prefix)
  have h8: "\<not> suffix ''voi'' ''const char *CTNR::Impl::FFN() [T = ''"
    by (simp add: suffix_to_prefix)
  have h9: "length (FFN ''const char *CTNR::Impl::FFN() [T = '' '']'' ''classy'') < 2 ^ 32"
    by (simp add: FFN_def literal_def)
  have h10: "length (FFN ''const char *CTNR::Impl::FFN() [T = '' '']'' ''structy<classy>'') < 2 ^ 32"
    by (simp add: FFN_def literal_def)
  have h11: "''classy'' \<noteq> ''structy<classy>''" by simp
  from GetName_distinct [OF h1 h2 h3 h4 h5 h6 h7 h8 h9 h10 h11]
    h1 h2 h3 h4 h5 h6 h7 h8 h9 h10 h11
  show ?thesis by blast
qed

subsection \<open>Termination\<close>

text \<open>
  Claim C8: the recursive procedures terminate. On every null-terminated input \<open>CTL\<close>
  and \<open>CTFV\<close> return a value, each step consuming one character and none reading past
  the terminator. The recursion of \<open>STN\<close> is well-founded for every counter
  (\<open>STN_dom\<close> is the accessible part of the relation between a call and its recursive
  call), each step decreases the counter \<open>Gen\<close>, and after \<open>unat Gen\<close> steps it
  reaches the specialisation for 0 with a pack of \<open>unat Gen\<close> more indices.
\<close>

theorem recursion_terminates:
  "(NUL \<in> set p \<longrightarrow> (\<exists>n. CTL p tail = Inr n) \<and> (\<exists>v. CTFV p tail 0 = Inr v))
   \<and> STN_dom (N, Gen, Is, q)
   \<and> (Gen \<noteq> 0 \<longrightarrow> unat (Gen - 1) < unat Gen)
   \<and> STN N Gen Is q = STN_floor N (ISeq Gen Is) q
   \<and> length (ISeq Gen Is) = unat Gen + length Is"
proof (intro conjI impI)
  assume nul: "NUL \<in> set p"
  then show "\<exists>n. CTL p tail = Inr n"
    by (simp add: CTL_c_str)
  from nul obtain rest where p: "p = c_str p @ NUL # rest"
    using c_str_split by blast
  have "\<exists>v. CTFV (c_str p @ NUL # rest) tail 0 = Inr v"
    by (intro CTFV_returns c_str_no_NUL) simp
  with p show "\<exists>v. CTFV p tail 0 = Inr v" by simp
next
  have "All STN_dom"
    by (relation "measure (\<lambda>(N, Gen, Is, inLiteral). unat Gen)")
       (auto simp: unat_minus_one unat_gt_0)
  then show "STN_dom (N, Gen, Is, q)" by simp
next
  assume "Gen \<noteq> 0"
  then show "unat (Gen - 1) < unat Gen"
    by (simp add: unat_minus_one unat_gt_0)
next
  show "STN N Gen Is q = STN_floor N (ISeq Gen Is) q" by (rule STN_ISeq)
  show "length (ISeq Gen Is) = unat Gen + length Is" by (simp add: ISeq_upt)
qed

theorem recursion_terminates_witness:
  "NUL \<in> set (literal ''const char *CTNR::Impl::FFN() [T = void]'')
   \<and> (\<exists>n. CTL (literal ''const char *CTNR::Impl::FFN() [T = void]'') 0 = Inr n)
   \<and> (\<exists>v. CTFV (literal ''const char *CTNR::Impl::FFN() [T = void]'') 0 0 = Inr v)
   \<and> (4 :: u32) \<noteq> 0 \<and> unat (4 - 1 :: u32) < unat (4 :: u32)
   \<and> length (ISeq 4 []) = 4"
proof -
  have h1: "NUL \<in> set (literal ''const char *CTNR::Impl::FFN() [T = void]'')"
    by (simp add: literal_def)
  have h2: "(4 :: u32) \<noteq> 0" by simp
  from recursion_terminates [of "literal ''const char *CTNR::Impl::FFN() [T = void]''" 0 4 4 "[]" "[]"]
    h1 h2
  show ?thesis by simp
qed

subsection \<open>What the scan returns\<close>

text \<open>
  Claim C9, as stated: for every null-terminated string \<open>s\<close>, a result \<open>v\<close> of \<open>CTFV\<close>
  other than \<open>2 ^ 32 - 1\<close> is a position where \<open>s\<close> reads \<^verbatim>\<open>void\<close>. The position is counted
  in an \<^verbatim>\<open>unsigned\<close> and wraps around: after \<open>2 ^ 32\<close> characters without a \<^verbatim>\<open>v\<close> the
  counter is 0 again, and the \<^verbatim>\<open>void\<close> that follows is reported at index 0.
\<close>

theorem CTFV_wraps:
  "CTFV (replicate (2 ^ 32) CHR ''x'' @ literal ''void'') 0 0 = Inr 0
   \<and> (0 :: u32) \<noteq> - 1
   \<and> take 4 (drop (unat (0 :: u32)) (c_str (replicate (2 ^ 32) CHR ''x'' @ literal ''void'')))
      \<noteq> ''void''"
proof (intro conjI)
  have "CTFV (replicate (2 ^ 32) CHR ''x'' @ literal ''void'') 0 0
        = CTFV (literal ''void'') (0 + of_nat (length (replicate (2 ^ 32) CHR ''x''))) 0"
    by (rule CTFV_skip) simp_all
  also have "\<dots> = CTFV (literal ''void'') 0 0"
  proof -
    have z: "(4294967296 :: u32) = 0" by simp
    show ?thesis by (simp add: z)
  qed
  also have "\<dots> = Inr 0" by (simp add: literal_def CTFV_step del: CTFV.simps)
  finally show "CTFV (replicate (2 ^ 32) CHR ''x'' @ literal ''void'') 0 0 = Inr 0" .
next
  show "(0 :: u32) \<noteq> - 1" by simp
next
  have "c_str (replicate (2 ^ 32) CHR ''x'' @ literal ''void'')
        = replicate (2 ^ 32) CHR ''x'' @ ''void''"
    by (simp add: c_str_append c_str_literal)
  moreover have "take 4 (replicate (2 ^ 32) CHR ''x'' @ ''void'') = replicate 4 CHR ''x''"
    by simp
  moreover have "replicate 4 CHR ''x'' \<noteq> ''void''"
    by (simp add: numeral_eq_Suc)
  ultimately show "take 4 (drop (unat (0 :: u32))
      (c_str (replicate (2 ^ 32) CHR ''x'' @ literal ''void''))) \<noteq> ''void''"
    by simp
qed

text \<open>
  Claim C9, amended: for every string \<open>s\<close> of fewer than \<open>2 ^ 32\<close> characters before its
  terminator, a result \<open>v\<close> of \<open>CTFV\<close> other than \<open>2 ^ 32 - 1\<close> is a position where \<open>s\<close>
  reads \<^verbatim>\<open>v\<close>, \<^verbatim>\<open>o\<close>, \<^verbatim>\<open>i\<close>, \<^verbatim>\<open>d\<close>.
\<close>

theorem CTFV_match_sound:
  assumes "CTFV p 0 0 = Inr v" and "v \<noteq> - 1" and "length (c_str p) < 2 ^ 32"
  shows "take 4 (drop (unat v) (c_str p)) = ''void''"
proof -
  have "consumed [] 0" by (simp add: consumed_def)
  with CTFV_sound_gen [of p "[]" 0 v] assms(1,2)
  obtain k where k: "v = of_nat k" "take 4 (drop k (c_str p)) = ''void''"
    by auto
  then have "length (take 4 (drop k (c_str p))) = 4" by simp
  then have "k < length (c_str p)" by (auto split: if_splits)
  with assms(3) have "k < 2 ^ 32" by simp
  then have "unat v = k"
    using k(1) by (simp add: unat_of_nat)
  with k(2) show ?thesis by simp
qed

theorem CTFV_match_sound_witness:
  "CTFV (literal ''const char *CTNR::Impl::FFN() [T = void]'') 0 0 = Inr 35
   \<and> (35 :: u32) \<noteq> - 1
   \<and> length (c_str (literal ''const char *CTNR::Impl::FFN() [T = void]'')) < 2 ^ 32
   \<and> take 4 (drop (unat (35 :: u32)) (c_str (literal ''const char *CTNR::Impl::FFN() [T = void]'')))
      = ''void''"
proof -
  have h1: "CTFV (literal ''const char *CTNR::Impl::FFN() [T = void]'') 0 0 = Inr 35"
    by (simp add: literal_def CTFV_step del: CTFV.simps)
  have h2: "(35 :: u32) \<noteq> - 1" by simp
  have h3: "length (c_str (literal ''const char *CTNR::Impl::FFN() [T = void]'')) < 2 ^ 32"
    by (simp add: c_str_literal)
  from CTFV_match_sound [OF h1 h2 h3] h1 h2 h3 show ?thesis by blast
qed

text \<open>
  Claim C10: for every null-terminated input in which the matcher never completes a match
  of four characters (the counter never takes the value 4), \<open>CTFV\<close> returns \<^verbatim>\<open>-1\<close>
  converted to \<^verbatim>\<open>unsigned\<close>: the value \<open>2 ^ 32 - 1\<close>, the greatest of the type, returned
  as an ordinary result and not as a failure.
\<close>

theorem CTFV_in_band_failure:
  "NUL \<in> set p \<and> 4 \<notin> set (matches (c_str p) 0) \<longrightarrow>
     CTFV p tail 0 = Inr (- 1) \<and> unat (- 1 :: u32) = 2 ^ 32 - 1 \<and> (\<forall>w :: u32. w \<le> - 1)"
proof (intro impI conjI)
  assume a: "NUL \<in> set p \<and> 4 \<notin> set (matches (c_str p) 0)"
  then obtain rest where p: "p = c_str p @ NUL # rest"
    using c_str_split by blast
  have "CTFV (c_str p @ NUL # rest) tail 0 = Inr (- 1)"
    using a by (intro CTFV_never_completes c_str_no_NUL) simp_all
  with p show "CTFV p tail 0 = Inr (- 1)" by simp
next
  show "unat (- 1 :: u32) = 2 ^ 32 - 1"
    by (simp add: unsigned_minus_1_eq_mask mask_eq_exp_minus_1)
next
  show "\<forall>w :: u32. w \<le> - 1" by simp
qed

theorem CTFV_in_band_failure_witness:
  "NUL \<in> set (literal ''vvoid'') \<and> 4 \<notin> set (matches (c_str (literal ''vvoid'')) 0)
   \<and> CTFV (literal ''vvoid'') 0 0 = Inr (- 1)"
proof -
  have h: "NUL \<in> set (literal ''vvoid'') \<and> 4 \<notin> set (matches (c_str (literal ''vvoid'')) 0)"
    by (simp add: literal_def c_str_def matches_step del: matches.simps(2))
  with CTFV_in_band_failure [of "literal ''vvoid''" 0] show ?thesis by blast
qed

end
